theory Spec2Isabelle
  imports Main "HOL-Library.Word" "HOL-Library.AList"
begin

section \<open>The copy-on-write trie of \<open>src/primer/trie.cpp\<close>\<close>

subsection \<open>Values and their runtime types\<close>

text \<open>
  \<open>trie.cpp\<close> instantiates \<open>Put\<close> and \<open>Get\<close> for five value types:
  \<open>uint32_t\<close>, \<open>uint64_t\<close>, \<open>std::string\<close>, \<open>Integer = std::unique_ptr<uint32_t>\<close>
  and \<open>MoveBlocked\<close>. A stored value is a payload tagged by its type; the tag is what
  \<open>dynamic_cast<const TrieNodeWithValue<T> *>\<close> inspects.
\<close>

datatype ty = T_uint32 | T_uint64 | T_string | T_Integer | T_MoveBlocked

text \<open>
  Modelled from the spec: the class \<open>MoveBlocked\<close> is declared in the header
  \<open>primer/trie.h\<close>; the spec only calls it a non-duplicable value type and
  \<open>trie.cpp\<close> never looks inside it, so it is a value without a payload here.
\<close>

datatype val =
    UInt32 "32 word"
  | UInt64 "64 word"
  | String string
  | Integer "32 word option"
  | MoveBlockedVal

fun type_of :: "val \<Rightarrow> ty" where
  "type_of (UInt32 _) = T_uint32"
| "type_of (UInt64 _) = T_uint64"
| "type_of (String _) = T_string"
| "type_of (Integer _) = T_Integer"
| "type_of MoveBlockedVal = T_MoveBlocked"

subsection \<open>Nodes, references and the store\<close>

text \<open>
  A \<open>std::shared_ptr<const TrieNode>\<close> is an address in the store or \<open>nullptr\<close>
  (\<open>None\<close>). The store is the list of all nodes allocated so far; the address of a node
  is its index, so \<open>std::make_shared\<close> appends and returns a fresh address. Nodes are
  never freed in the model: the reclamation of a node whose last reference is dropped is
  not observable by \<open>Get\<close>, \<open>Put\<close> or \<open>Remove\<close>.
\<close>

type_synonym addr = nat
type_synonym ptr = "addr option"

text \<open>
  Modelled from the spec: the node classes are declared in the header \<open>primer/trie.h\<close>.
  The fields \<open>children_\<close>, \<open>value_\<close>, \<open>is_value_node_\<close> and \<open>root_\<close> are
  written without the trailing underscore.
  A branch node holds a mapping from a byte to a child reference (\<open>children_\<close>, a
  \<open>std::map<char, std::shared_ptr<const TrieNode>>\<close>, here an association list read
  with \<open>map_of\<close>); a value node is a branch node that additionally holds one value.
\<close>

datatype TrieNode =
    TrieNode (children: "(char \<times> ptr) list")
  | TrieNodeWithValue (children: "(char \<times> ptr) list") (node_value: val)

fun is_value_node :: "TrieNode \<Rightarrow> bool" where
  "is_value_node (TrieNode _) = False"
| "is_value_node (TrieNodeWithValue _ _) = True"

type_synonym heap = "TrieNode list"

definition make_shared :: "heap \<Rightarrow> TrieNode \<Rightarrow> heap \<times> addr" where
  "make_shared h n = (h @ [n], length h)"

text \<open>
  Modelled from the spec: \<open>Clone\<close> is declared in the header; it is the shallow
  structural copy of a node: same children mapping and same value, if any. The copy gets
  its new identity when it is placed in the store.
\<close>

fun Clone :: "TrieNode \<Rightarrow> TrieNode" where
  "Clone (TrieNode c) = TrieNode c"
| "Clone (TrieNodeWithValue c v) = TrieNodeWithValue c v"

text \<open>\<open>node->children_[ch] = child\<close> on a node under construction.\<close>

fun set_child :: "TrieNode \<Rightarrow> char \<Rightarrow> ptr \<Rightarrow> TrieNode" where
  "set_child (TrieNode c) ch p = TrieNode (AList.update ch p c)"
| "set_child (TrieNodeWithValue c v) ch p = TrieNodeWithValue (AList.update ch p c) v"

text \<open>A version of the trie is its root reference.\<close>

datatype Trie = Trie (root: ptr)

subsection \<open>\<open>Trie::Get\<close>\<close>

text \<open>
  Dereferencing a null \<open>shared_ptr\<close> is undefined behaviour in C++; the model makes it
  the error value \<open>NullDereference\<close>.
\<close>

datatype error = NullDereference

text \<open>
  The loop \<open>for (auto c : key)\<close> of \<open>Get\<close>. \<open>Inr None\<close> is the early
  \<open>return nullptr\<close> inside the loop, \<open>Inr (Some node)\<close> the node the loop ends on.
\<close>

fun Get_loop :: "heap \<Rightarrow> ptr \<Rightarrow> string \<Rightarrow> error + ptr option" where
  "Get_loop h node [] = Inr (Some node)"
| "Get_loop h node (c # key) =
     (case node of
        None \<Rightarrow> Inl NullDereference
      | Some a \<Rightarrow>
          (case map_of (children (h ! a)) c of
             None \<Rightarrow> Inr None
           | Some nxt \<Rightarrow> Get_loop h nxt key))"

text \<open>\<open>dynamic_cast<const TrieNodeWithValue<T> *>(node.get())\<close>\<close>

fun dynamic_cast :: "ty \<Rightarrow> heap \<Rightarrow> ptr \<Rightarrow> ptr" where
  "dynamic_cast T h None = None"
| "dynamic_cast T h (Some a) =
     (case h ! a of
        TrieNode _ \<Rightarrow> None
      | TrieNodeWithValue _ v \<Rightarrow> if type_of v = T then Some a else None)"

text \<open>\<open>Get<T>(key)\<close>: \<open>Inr None\<close> is the result \<open>nullptr\<close> (not found).\<close>

definition Get :: "heap \<Rightarrow> Trie \<Rightarrow> ty \<Rightarrow> string \<Rightarrow> error + val option" where
  "Get h t T key =
     (case Get_loop h (root t) key of
        Inl e \<Rightarrow> Inl e
      | Inr None \<Rightarrow> Inr None
      | Inr (Some node) \<Rightarrow>
          (case dynamic_cast T h node of
             None \<Rightarrow> Inr None
           | Some value_node \<Rightarrow> Inr (Some (node_value (h ! value_node)))))"

subsection \<open>The loops shared by \<open>Trie::Put\<close> and \<open>Trie::Remove\<close>\<close>

text \<open>
  Step 1 of both: \<open>for (; idx < key_size && cur_node; idx++)\<close>, pushing the current
  node and following the edge for \<open>key[idx]\<close> (a missing edge gives \<open>nullptr\<close>).
\<close>

function walk :: "heap \<Rightarrow> string \<Rightarrow> nat \<Rightarrow> ptr \<Rightarrow> addr list \<Rightarrow> nat \<times> ptr \<times> addr list" where
  "walk h key idx cur_node node_stack =
     (if idx < length key \<and> cur_node \<noteq> None then
        (let ch = key ! idx;
             a = the cur_node;
             nxt = (case map_of (children (h ! a)) ch of None \<Rightarrow> None | Some p \<Rightarrow> p)
         in walk h key (Suc idx) nxt (node_stack @ [a]))
      else (idx, cur_node, node_stack))"
  by pat_completeness auto
termination
  by (relation "measure (\<lambda>(h, key, idx, cur_node, node_stack). length key - idx)") auto

declare walk.simps [simp del]

text \<open>
  Step 3 of both:
  \<open>for (int i = static_cast<int>(node_stack.size()) - 1; i >= 0; i--)\<close>.
  The counter \<open>i\<close> is a 32-bit \<open>int\<close>, here a \<open>32 word\<close> read as two's complement by
  \<open>sint\<close>; the callers start it at \<open>word_of_nat (length node_stack) - 1\<close>, the size
  reduced modulo \<open>2^32\<close> by the cast, minus one. So the loop runs over the whole stack
  only when the stack has fewer than \<open>2^31\<close> entries; a stack of more than \<open>2^31\<close> and
  fewer than \<open>2^32\<close> entries gives a negative counter and the loop is skipped. (At
  exactly \<open>2^31\<close> entries modulo \<open>2^32\<close> the subtraction overflows in C++; the word
  wraps there. No statement below depends on that case.) The decrement \<open>i--\<close> is only
  reached with \<open>i >= 0\<close> and cannot overflow.

  Each round clones \<open>node_stack[i]\<close>, stores \<open>child_node\<close> under \<open>key[i]\<close> in the
  clone and makes the clone both \<open>cur_node\<close> and \<open>child_node\<close>. The result is
  \<open>cur_node\<close>.
\<close>

function copy_path :: "heap \<Rightarrow> addr list \<Rightarrow> string \<Rightarrow> 32 word \<Rightarrow> ptr \<Rightarrow> ptr \<Rightarrow> heap \<times> ptr" where
  "copy_path h node_stack key i cur_node child_node =
     (if 0 \<le> sint i then
        (let (h', a) = make_shared h (Clone (h ! (node_stack ! nat (sint i))));
             h'' = h'[a := set_child (h' ! a) (key ! nat (sint i)) child_node]
         in copy_path h'' node_stack key (i - 1) (Some a) (Some a))
      else (h, cur_node))"
  by pat_completeness auto
termination
proof (relation "measure (\<lambda>(h, node_stack, key, i, cur_node, child_node). nat (sint i + 1))")
  show "wf (measure (\<lambda>(h, node_stack, key, i, cur_node, child_node). nat (sint i + 1)))"
    by simp
next
  fix h :: heap and node_stack :: "addr list" and key :: string and i :: "32 word"
    and cur_node child_node :: ptr and x :: "heap \<times> addr" and xa :: heap and y :: addr
    and xb :: heap
  assume "0 \<le> sint i"
  moreover have "sint i < 2 ^ 31"
    using sint_lt [of i] by simp
  ultimately have "sint (i - 1) = sint i - 1"
    by (simp add: sint_word_diff signed_take_bit_int_eq_self)
  with \<open>0 \<le> sint i\<close>
  show "((xb, node_stack, key, i - 1, Some y, Some y), (h, node_stack, key, i, cur_node, child_node))
          \<in> measure (\<lambda>(h, node_stack, key, i, cur_node, child_node). nat (sint i + 1))"
    by simp
qed

declare copy_path.simps [simp del]

subsection \<open>\<open>Trie::Put\<close>\<close>

text \<open>
  The loop \<open>while (idx < key_size) { char ch = key[--key_size]; ... }\<close>; the fourth
  argument is \<open>key_size\<close>. The loop also assigns \<open>cur_node\<close>, which \<open>Put\<close> overwrites
  right after the loop, so only \<open>child_node\<close> is returned.
\<close>

fun build_chain :: "heap \<Rightarrow> string \<Rightarrow> nat \<Rightarrow> nat \<Rightarrow> ptr \<Rightarrow> heap \<times> ptr" where
  "build_chain h key idx 0 child_node = (h, child_node)"
| "build_chain h key idx (Suc n) child_node =
     (if idx < Suc n then
        (let ch = key ! n;
             (h', a) = make_shared h (TrieNode [(ch, child_node)])
         in build_chain h' key idx n (Some a))
      else (h, child_node))"

definition Put :: "heap \<Rightarrow> Trie \<Rightarrow> string \<Rightarrow> val \<Rightarrow> heap \<times> Trie" where
  "Put h t key val =
     (let (idx, cur_node, node_stack) = walk h key 0 (root t) [];
          (h1, leaf_node) =
             (case cur_node of
                Some a \<Rightarrow> make_shared h (TrieNodeWithValue (children (h ! a)) val)
              | None \<Rightarrow> make_shared h (TrieNodeWithValue [] val));
          (h2, child_node) = build_chain h1 key idx (length key) (Some leaf_node);
          (h3, cur_node') =
             copy_path h2 node_stack key (word_of_nat (length node_stack) - 1)
               child_node child_node
      in (h3, Trie cur_node'))"

subsection \<open>\<open>Trie::Remove\<close>\<close>

text \<open>
  The guard \<open>idx != key_size || cur_node == nullptr || !cur_node->is_value_node_\<close>
  is evaluated left to right; each test that succeeds returns \<open>*this\<close>. Step 3 starts
  from the \<open>cur_node\<close> the walk ended on: unlike \<open>Put\<close>, \<open>Remove\<close> has no
  \<open>cur_node = child_node\<close> before the loop.
\<close>

definition Remove :: "heap \<Rightarrow> Trie \<Rightarrow> string \<Rightarrow> heap \<times> Trie" where
  "Remove h t key =
     (let (idx, cur_node, node_stack) = walk h key 0 (root t) []
      in if idx \<noteq> length key then (h, t)
         else
           (case cur_node of
              None \<Rightarrow> (h, t)
            | Some a \<Rightarrow>
                if \<not> is_value_node (h ! a) then (h, t)
                else
                  (let (h1, end_node) =
                         (if children (h ! a) = [] then (h, None)
                          else (let (h', e) = make_shared h (TrieNode (children (h ! a)))
                                in (h', Some e)));
                       (h2, cur_node') =
                          copy_path h1 node_stack key (word_of_nat (length node_stack) - 1)
                            cur_node end_node
                   in (h2, Trie cur_node'))))"

subsection \<open>Well-formed stores\<close>

text \<open>
  A \<open>shared_ptr\<close> never dangles: every reference held by a node of the store, and the
  root of a version, is null or the address of a node of the store.
\<close>

definition valid_ptr :: "heap \<Rightarrow> ptr \<Rightarrow> bool" where
  "valid_ptr h p = (case p of None \<Rightarrow> True | Some a \<Rightarrow> a < length h)"

definition wf_node :: "heap \<Rightarrow> TrieNode \<Rightarrow> bool" where
  "wf_node h n = list_all (\<lambda>(c, p). valid_ptr h p) (children n)"

definition wf_heap :: "heap \<Rightarrow> bool" where
  "wf_heap h = list_all (wf_node h) h"

definition wf_trie :: "heap \<Rightarrow> Trie \<Rightarrow> bool" where
  "wf_trie h t = (wf_heap h \<and> valid_ptr h (root t))"

text \<open>
  The edge lookup of the walk:
  \<open>children_.find(ch) == children_.end() ? nullptr : children_.at(ch)\<close>.
\<close>

abbreviation find_child :: "heap \<Rightarrow> addr \<Rightarrow> char \<Rightarrow> ptr" where
  "find_child h a ch \<equiv> (case map_of (children (h ! a)) ch of None \<Rightarrow> None | Some p \<Rightarrow> p)"

text \<open>
  The key is present as a value: the loop of \<open>Get\<close> consumes the whole key and ends on
  a value node.
\<close>

definition holds_value :: "heap \<Rightarrow> Trie \<Rightarrow> string \<Rightarrow> bool" where
  "holds_value h t key =
     (case Get_loop h (root t) key of
        Inr (Some (Some a)) \<Rightarrow> is_value_node (h ! a)
      | _ \<Rightarrow> False)"

text \<open>
  \<open>node_stack.size()\<close> after step 1: the number of nodes the walk finds along the key.
\<close>

definition path_length :: "heap \<Rightarrow> Trie \<Rightarrow> string \<Rightarrow> nat" where
  "path_length h t key =
     (case walk h key 0 (root t) [] of (idx, cur_node, node_stack) \<Rightarrow> length node_stack)"

subsection \<open>A path too long for the counter of step 3\<close>

text \<open>
  The key of \<open>2^31 + 1\<close> bytes \<open>a\<close>, and the store and version that \<open>Put\<close> builds for
  it from the empty trie: the value node at address 0 and, at every address \<open>j + 1\<close>, a
  branch node with the edge \<open>a\<close> to address \<open>j\<close>; the root is at address \<open>long_n\<close>.
\<close>

definition long_n :: nat where
  "long_n = 2 ^ 31 + 1"

definition long_key :: string where
  "long_key = replicate long_n (CHR ''a'')"

definition long_path :: "val \<Rightarrow> heap" where
  "long_path v =
     TrieNodeWithValue [] v # map (\<lambda>j. TrieNode [(CHR ''a'', Some j)]) [0..<long_n]"

section \<open>The loops as recursions over the key\<close>

lemma walk_Nil: "walk h [] idx p st = (idx, p, st)"
  by (simp add: walk.simps)

lemma walk_None: "walk h key idx None st = (idx, None, st)"
  by (simp add: walk.simps)

lemma walk_shift:
  "walk h (c # key) (Suc idx) cur st = (case walk h key idx cur st of (i, cu, s) \<Rightarrow> (Suc i, cu, s))"
proof (induction h key idx cur st rule: walk.induct)
  case (1 h key idx cur_node node_stack)
  show ?case
  proof (cases "idx < length key \<and> cur_node \<noteq> None")
    case True
    then show ?thesis
      using "1.IH" [OF True refl refl refl]
      by (subst walk.simps, subst (2) walk.simps) (simp add: Let_def)
  next
    case False
    then show ?thesis
      by (subst walk.simps, subst (2) walk.simps) auto
  qed
qed

lemma walk_stack:
  "walk h key idx cur (s0 @ st) = (case walk h key idx cur st of (i, cu, s) \<Rightarrow> (i, cu, s0 @ s))"
proof (induction h key idx cur st rule: walk.induct)
  case (1 h key idx cur_node node_stack)
  show ?case
  proof (cases "idx < length key \<and> cur_node \<noteq> None")
    case True
    then show ?thesis
      using "1.IH" [OF True refl refl refl]
      by (subst walk.simps, subst (2) walk.simps) (simp add: Let_def)
  next
    case False
    then show ?thesis
      by (subst walk.simps, subst (2) walk.simps) auto
  qed
qed

lemma walk_Cons:
  "walk h (c # key) 0 (Some a) [] =
     (case walk h key 0 (find_child h a c) [] of (i, cu, s) \<Rightarrow> (Suc i, cu, a # s))"
proof -
  have "walk h (c # key) 0 (Some a) [] = walk h (c # key) (Suc 0) (find_child h a c) ([a] @ [])"
    by (subst walk.simps) (simp add: Let_def)
  also have "\<dots> = (case walk h key 0 (find_child h a c) [] of (i, cu, s) \<Rightarrow> (Suc i, cu, a # s))"
    by (simp only: walk_stack walk_shift) (simp split: prod.splits)
  finally show ?thesis .
qed

lemma walk_length: "walk h key 0 p [] = (idx, cur, st) \<Longrightarrow> length st = idx \<and> idx \<le> length key"
proof (induction key arbitrary: p idx cur st)
  case Nil
  then show ?case by (simp add: walk_Nil)
next
  case (Cons c key)
  show ?case
  proof (cases p)
    case None
    with Cons.prems show ?thesis by (simp add: walk_None)
  next
    case (Some a)
    with Cons.prems Cons.IH show ?thesis
      by (auto simp: walk_Cons split: prod.splits)
  qed
qed

lemma build_chain_shift:
  "build_chain h (c # key) (Suc idx) (Suc n) child = build_chain h key idx n child"
  by (induction n arbitrary: h child) (auto simp: Let_def make_shared_def)

lemma build_chain_zero:
  "build_chain h (c # key) 0 (Suc n) child =
     (case build_chain h key 0 n child of (h1, r1) \<Rightarrow> (h1 @ [TrieNode [(c, r1)]], Some (length h1)))"
  by (induction n arbitrary: h child) (auto simp: Let_def make_shared_def)

lemma sint_word_of_nat_small: "n < 2 ^ 31 \<Longrightarrow> sint (word_of_nat n :: 32 word) = int n"
  by (simp add: signed_of_nat signed_take_bit_int_eq_self)

lemma copy_path_neg: "copy_path h st key (- 1) cur child = (h, cur)"
  by (subst copy_path.simps) simp

lemma copy_path_step:
  "n < 2 ^ 31 \<Longrightarrow>
     copy_path h st key (word_of_nat n) cur child =
       copy_path (h @ [set_child (Clone (h ! (st ! n))) (key ! n) child]) st key
         (word_of_nat n - 1) (Some (length h)) (Some (length h))"
  by (subst copy_path.simps) (simp add: sint_word_of_nat_small make_shared_def)

lemma copy_path_Cons:
  "n < 2 ^ 31 \<Longrightarrow>
     copy_path h (a # st) (c # key) (word_of_nat n) cur child =
       (case copy_path h st key (word_of_nat n - 1) child child of
          (h1, r1) \<Rightarrow> (h1 @ [set_child (Clone (h1 ! a)) c r1], Some (length h1)))"
proof (induction n arbitrary: h cur child)
  case 0
  then show ?case
    using copy_path_step [of 0 h "a # st" "c # key" cur child]
    by (simp add: copy_path_neg)
next
  case (Suc n)
  then have n: "n < 2 ^ 31" by simp
  let ?h = "h @ [set_child (Clone (h ! (st ! n))) (key ! n) child]"
  let ?p = "Some (length h)"
  have "copy_path h (a # st) (c # key) (word_of_nat (Suc n)) cur child =
          copy_path ?h (a # st) (c # key) (word_of_nat n) ?p ?p"
    using copy_path_step [OF Suc.prems, of h "a # st" "c # key" cur child] by simp
  moreover have "copy_path h st key (word_of_nat (Suc n) - 1) child child =
          copy_path ?h st key (word_of_nat n - 1) ?p ?p"
    using copy_path_step [OF n, of h st key child child] by simp
  ultimately show ?case
    by (simp only: Suc.IH [OF n])
qed

lemma copy_path_extends: "copy_path h st key i cur child = (h', r') \<Longrightarrow> \<exists>hs. h' = h @ hs"
proof (induction h st key i cur child rule: copy_path.induct)
  case (1 h node_stack key i cur_node child_node)
  show ?case
  proof (cases "0 \<le> sint i")
    case True
    let ?h = "h @ [set_child (Clone (h ! (node_stack ! nat (sint i)))) (key ! nat (sint i)) child_node]"
    from "1.prems" True
    have "copy_path ?h node_stack key (i - 1) (Some (length h)) (Some (length h)) = (h', r')"
      by (subst (asm) copy_path.simps) (simp add: make_shared_def)
    moreover
    have "(h @ [Clone (h ! (node_stack ! nat (sint i)))], length h) =
            make_shared h (Clone (h ! (node_stack ! nat (sint i))))"
      by (simp add: make_shared_def)
    note "1.IH" [OF True refl this refl]
    ultimately obtain hs where "h' = ?h @ hs"
      by auto
    then show ?thesis by simp
  next
    case False
    with "1.prems" show ?thesis
      by (subst (asm) copy_path.simps) simp
  qed
qed

lemma build_chain_extends: "build_chain h key idx n child = (h', r') \<Longrightarrow> \<exists>hs. h' = h @ hs"
proof (induction n arbitrary: h child)
  case 0
  then show ?case by simp
next
  case (Suc n)
  show ?case
  proof (cases "idx < Suc n")
    case True
    with Suc.prems have "build_chain (h @ [TrieNode [(key ! n, child)]]) key idx n (Some (length h)) = (h', r')"
      by (simp add: make_shared_def)
    from Suc.IH [OF this] show ?thesis by auto
  next
    case False
    with Suc.prems show ?thesis by simp
  qed
qed

lemma path_length_Nil: "path_length h t [] = 0"
  by (simp add: path_length_def walk_Nil)

lemma path_length_None: "path_length h (Trie None) key = 0"
  by (simp add: path_length_def walk_None)

lemma path_length_Cons:
  "path_length h (Trie (Some a)) (c # key) = Suc (path_length h (Trie (find_child h a c)) key)"
  by (simp add: path_length_def walk_Cons split: prod.splits)

lemma path_length_le: "path_length h t key \<le> length key"
proof -
  obtain idx cur st where w: "walk h key 0 (root t) [] = (idx, cur, st)"
    by (cases "walk h key 0 (root t) []") auto
  from walk_length [OF w] w show ?thesis
    by (simp add: path_length_def)
qed

subsection \<open>\<open>Put\<close> as a recursion over the key\<close>

lemma Put_Nil:
  "Put h (Trie p) [] v =
     (h @ [TrieNodeWithValue (case p of None \<Rightarrow> [] | Some a \<Rightarrow> children (h ! a)) v],
      Trie (Some (length h)))"
  by (cases p) (simp_all add: Put_def walk_Nil make_shared_def copy_path_neg)

lemma Put_None_Cons:
  "Put h (Trie None) (c # key) v =
     (case Put h (Trie None) key v of
        (h1, t1) \<Rightarrow> (h1 @ [TrieNode [(c, root t1)]], Trie (Some (length h1))))"
  by (simp add: Put_def walk_None make_shared_def build_chain_zero copy_path_neg
           split: prod.splits del: build_chain.simps)

lemma Put_Some_Cons:
  assumes "path_length h (Trie (Some a)) (c # key) < 2 ^ 31"
  shows "Put h (Trie (Some a)) (c # key) v =
     (case Put h (Trie (find_child h a c)) key v of
        (h1, t1) \<Rightarrow> (h1 @ [set_child (Clone (h1 ! a)) c (root t1)], Trie (Some (length h1))))"
proof -
  obtain i cu s where w: "walk h key 0 (find_child h a c) [] = (i, cu, s)"
    by (cases "walk h key 0 (find_child h a c) []") auto
  then have l: "length s = i"
    using walk_length by blast
  from assms w have "length s < 2 ^ 31"
    by (simp add: path_length_def walk_Cons)
  from copy_path_Cons [OF this] show ?thesis
    using w l
    by (simp add: Put_def walk_Cons build_chain_shift split: prod.splits
             del: build_chain.simps)
qed

lemma Put_extends: "Put h t key v = (h', t') \<Longrightarrow> \<exists>hs. h' = h @ hs"
proof -
  assume p: "Put h t key v = (h', t')"
  obtain idx cur st where w: "walk h key 0 (root t) [] = (idx, cur, st)"
    by (cases "walk h key 0 (root t) []") auto
  define leaf where "leaf = TrieNodeWithValue (case cur of None \<Rightarrow> [] | Some a \<Rightarrow> children (h ! a)) v"
  obtain h2 ch where b: "build_chain (h @ [leaf]) key idx (length key) (Some (length h)) = (h2, ch)"
    by (cases "build_chain (h @ [leaf]) key idx (length key) (Some (length h))") auto
  obtain r where c: "copy_path h2 st key (word_of_nat (length st) - 1) ch ch = (h', r)"
    using p w b
    by (cases cur) (auto simp: Put_def make_shared_def leaf_def split: prod.splits)
  from build_chain_extends [OF b] copy_path_extends [OF c] show ?thesis
    by auto
qed


subsection \<open>Well-formedness is preserved\<close>

lemma Clone_id: "Clone n = n"
  by (cases n) simp_all

lemma children_set_child: "children (set_child n c p) = AList.update c p (children n)"
  by (cases n) simp_all

lemma is_value_node_set_child: "is_value_node (set_child n c p) = is_value_node n"
  by (cases n) simp_all

lemma valid_ptr_simps:
  "valid_ptr h None" "valid_ptr h (Some a) = (a < length h)"
  by (simp_all add: valid_ptr_def)

lemma valid_ptr_append: "valid_ptr h p \<Longrightarrow> valid_ptr (h @ hs) p"
  by (cases p) (simp_all add: valid_ptr_def)

lemma wf_node_append: "wf_node h n \<Longrightarrow> wf_node (h @ hs) n"
  by (auto simp: wf_node_def list_all_iff valid_ptr_append)

lemma wf_heap_snoc: "wf_heap h \<Longrightarrow> wf_node (h @ [n]) n \<Longrightarrow> wf_heap (h @ [n])"
  by (auto simp: wf_heap_def list_all_iff wf_node_append)

lemma wf_node_child:
  "wf_node h n \<Longrightarrow> map_of (children n) c = Some p \<Longrightarrow> valid_ptr h p"
  by (auto simp: wf_node_def list_all_iff dest!: map_of_SomeD)

lemma wf_heap_child:
  "wf_heap h \<Longrightarrow> a < length h \<Longrightarrow> map_of (children (h ! a)) c = Some p \<Longrightarrow> valid_ptr h p"
  by (auto simp: wf_heap_def list_all_iff intro: wf_node_child)

lemma wf_heap_find_child:
  "wf_heap h \<Longrightarrow> a < length h \<Longrightarrow> valid_ptr h (find_child h a c)"
  by (auto simp: valid_ptr_simps split: option.splits dest: wf_heap_child)

lemma set_alist_update: "set (AList.update k v al) \<subseteq> insert (k, v) (set al)"
  by (induction al) auto

lemma wf_node_set_child:
  "wf_node h n \<Longrightarrow> valid_ptr h p \<Longrightarrow> wf_node h (set_child n c p)"
  using set_alist_update [of c p "children n"]
  by (auto simp: wf_node_def list_all_iff children_set_child)

lemma wf_heap_nth: "wf_heap h \<Longrightarrow> a < length h \<Longrightarrow> wf_node h (h ! a)"
  by (simp add: wf_heap_def list_all_length)

subsection \<open>\<open>Get\<close> as a recursion over the key\<close>

lemma Get_None_Nil: "Get h (Trie None) T [] = Inr None"
  by (simp add: Get_def)

lemma Get_None_Cons: "Get h (Trie None) T (c # key) = Inl NullDereference"
  by (simp add: Get_def)

lemma Get_Some_Nil:
  "Get h (Trie (Some a)) T [] =
     (case h ! a of
        TrieNode _ \<Rightarrow> Inr None
      | TrieNodeWithValue _ v \<Rightarrow> if type_of v = T then Inr (Some v) else Inr None)"
  by (simp add: Get_def split: TrieNode.splits)

lemma Get_Some_Cons:
  "Get h (Trie (Some a)) T (c # key) =
     (case map_of (children (h ! a)) c of
        None \<Rightarrow> Inr None
      | Some nxt \<Rightarrow> Get h (Trie nxt) T key)"
  by (simp add: Get_def split: option.splits)

lemma Get_frame:
  "wf_heap h \<Longrightarrow> valid_ptr h p \<Longrightarrow> Get (h @ hs) (Trie p) T key = Get h (Trie p) T key"
proof (induction key arbitrary: p)
  case Nil
  then show ?case
    by (cases p) (simp_all add: Get_None_Nil Get_Some_Nil valid_ptr_simps nth_append)
next
  case (Cons c key)
  show ?case
  proof (cases p)
    case None
    then show ?thesis by (simp add: Get_None_Cons)
  next
    case (Some a)
    with Cons.prems have a: "a < length h"
      by (simp add: valid_ptr_simps)
    show ?thesis
    proof (cases "map_of (children (h ! a)) c")
      case None
      with Some a show ?thesis by (simp add: Get_Some_Cons nth_append)
    next
      case (Some nxt)
      with Cons.prems(1) a have "valid_ptr h nxt"
        by (rule wf_heap_child)
      with Cons.IH Cons.prems(1) have "Get (h @ hs) (Trie nxt) T key = Get h (Trie nxt) T key"
        by simp
      with Some \<open>p = Some a\<close> a show ?thesis
        by (simp add: Get_Some_Cons nth_append)
    qed
  qed
qed


subsection \<open>What \<open>Put\<close> builds\<close>

lemma Put_props:
  "wf_heap h \<Longrightarrow> valid_ptr h p \<Longrightarrow> path_length h (Trie p) key < 2 ^ 31 \<Longrightarrow>
   Put h (Trie p) key v = (h', t') \<Longrightarrow>
     (\<exists>hs. h' = h @ hs) \<and> wf_heap h' \<and> (\<exists>a. t' = Trie (Some a) \<and> a < length h')"
proof (induction key arbitrary: p h' t')
  case Nil
  have "wf_node h (TrieNodeWithValue (case p of None \<Rightarrow> [] | Some a \<Rightarrow> children (h ! a)) v)"
  proof (cases p)
    case None
    then show ?thesis by (simp add: wf_node_def)
  next
    case (Some a)
    with Nil.prems have "wf_node h (h ! a)"
      by (simp add: valid_ptr_simps wf_heap_nth)
    with Some show ?thesis by (simp add: wf_node_def)
  qed
  then have "wf_heap (h @ [TrieNodeWithValue (case p of None \<Rightarrow> [] | Some a \<Rightarrow> children (h ! a)) v])"
    using Nil.prems(1) by (intro wf_heap_snoc wf_node_append)
  with Nil.prems(4) show ?case
    by (auto simp: Put_Nil)
next
  case (Cons c key)
  show ?case
  proof (cases p)
    case None
    obtain h1 t1 where p1: "Put h (Trie None) key v = (h1, t1)"
      by (cases "Put h (Trie None) key v") auto
    from Cons.IH [OF Cons.prems(1) _ _ p1]
    obtain hs a1 where ih: "h1 = h @ hs" "wf_heap h1" "t1 = Trie (Some a1)" "a1 < length h1"
      by (auto simp: valid_ptr_simps path_length_None)
    from Cons.prems(4) None p1 ih
    have h': "h' = h1 @ [TrieNode [(c, Some a1)]]" and t': "t' = Trie (Some (length h1))"
      by (simp_all add: Put_None_Cons)
    have "wf_node h' (TrieNode [(c, Some a1)])"
      using ih(4) by (simp add: wf_node_def h' valid_ptr_simps)
    then have "wf_heap h'"
      unfolding h' using ih(2) by (intro wf_heap_snoc)
    moreover have "\<exists>hs. h' = h @ hs"
      by (simp add: h' ih(1))
    ultimately show ?thesis
      by (simp add: t' h')
  next
    case (Some a)
    with Cons.prems have a: "a < length h"
      by (simp add: valid_ptr_simps)
    let ?q = "find_child h a c"
    obtain h1 t1 where p1: "Put h (Trie ?q) key v = (h1, t1)"
      by (cases "Put h (Trie ?q) key v") auto
    have "valid_ptr h ?q"
      using Cons.prems(1) a by (rule wf_heap_find_child)
    moreover from Cons.prems(3) Some have b: "path_length h (Trie (Some a)) (c # key) < 2 ^ 31"
      by simp
    then have "path_length h (Trie ?q) key < 2 ^ 31"
      by (simp add: path_length_Cons)
    ultimately
    obtain hs a1 where ih: "h1 = h @ hs" "wf_heap h1" "t1 = Trie (Some a1)" "a1 < length h1"
      using Cons.IH [OF Cons.prems(1) _ _ p1] by auto
    let ?n = "set_child (Clone (h1 ! a)) c (Some a1)"
    from Cons.prems(4) Some p1 ih
    have h': "h' = h1 @ [?n]" and t': "t' = Trie (Some (length h1))"
      by (simp_all add: Put_Some_Cons [OF b])
    have "a < length h1"
      using a ih(1) by simp
    with ih(2) have "wf_node h1 (h1 ! a)"
      by (simp add: wf_heap_nth)
    then have "wf_node h1 ?n"
      using ih(4) by (simp add: Clone_id wf_node_set_child valid_ptr_simps)
    then have "wf_node h' ?n"
      unfolding h' by (rule wf_node_append)
    then have "wf_heap h'"
      unfolding h' using ih(2) by (intro wf_heap_snoc)
    moreover have "\<exists>hs. h' = h @ hs"
      by (simp add: h' ih(1))
    ultimately show ?thesis
      by (simp add: t' h')
  qed
qed


lemma Put_step_None:
  assumes "wf_heap h" "Put h (Trie None) (c # key) v = (h', t')"
  obtains h1 a1 where
    "Put h (Trie None) key v = (h1, Trie (Some a1))" "wf_heap h1" "a1 < length h1"
    "h' = h1 @ [TrieNode [(c, Some a1)]]" "t' = Trie (Some (length h1))"
proof -
  obtain h1 t1 where p1: "Put h (Trie None) key v = (h1, t1)"
    by (cases "Put h (Trie None) key v") auto
  from Put_props [OF assms(1) _ _ p1]
  obtain a1 where "wf_heap h1" "t1 = Trie (Some a1)" "a1 < length h1"
    by (auto simp: valid_ptr_simps path_length_None)
  with p1 assms(2) that show thesis
    by (simp add: Put_None_Cons)
qed

lemma Put_step_Some:
  assumes "wf_heap h" "a < length h" "path_length h (Trie (Some a)) (c # key) < 2 ^ 31"
    "Put h (Trie (Some a)) (c # key) v = (h', t')"
  obtains h1 a1 hs where
    "Put h (Trie (find_child h a c)) key v = (h1, Trie (Some a1))" "wf_heap h1" "a1 < length h1"
    "h1 = h @ hs" "path_length h (Trie (find_child h a c)) key < 2 ^ 31"
    "h' = h1 @ [set_child (h ! a) c (Some a1)]" "t' = Trie (Some (length h1))"
proof -
  let ?q = "find_child h a c"
  obtain h1 t1 where p1: "Put h (Trie ?q) key v = (h1, t1)"
    by (cases "Put h (Trie ?q) key v") auto
  have "valid_ptr h ?q"
    using assms(1,2) by (rule wf_heap_find_child)
  moreover from assms(3) have b: "path_length h (Trie ?q) key < 2 ^ 31"
    by (simp add: path_length_Cons)
  ultimately
  obtain hs a1 where ih: "h1 = h @ hs" "wf_heap h1" "t1 = Trie (Some a1)" "a1 < length h1"
    using Put_props [OF assms(1) _ _ p1] by auto
  have "h1 ! a = h ! a"
    using assms(2) ih(1) by (simp add: nth_append)
  with p1 ih assms(4) b that show thesis
    by (simp add: Put_Some_Cons [OF assms(3)] Clone_id)
qed

lemma Put_Get_same:
  "wf_heap h \<Longrightarrow> valid_ptr h p \<Longrightarrow> path_length h (Trie p) key < 2 ^ 31 \<Longrightarrow>
   Put h (Trie p) key v = (h', t') \<Longrightarrow>
     Get h' t' T key = (if type_of v = T then Inr (Some v) else Inr None)"
proof (induction key arbitrary: p h' t')
  case Nil
  then show ?case
    by (auto simp: Put_Nil Get_Some_Nil)
next
  case (Cons c key)
  show ?case
  proof (cases p)
    case None
    from Cons.prems(1,4) [unfolded None] obtain h1 a1 where
      p1: "Put h (Trie None) key v = (h1, Trie (Some a1))" and w1: "wf_heap h1" "a1 < length h1"
      and h': "h' = h1 @ [TrieNode [(c, Some a1)]]" and t': "t' = Trie (Some (length h1))"
      by (rule Put_step_None)
    have "Get h' t' T (c # key) = Get h' (Trie (Some a1)) T key"
      by (simp add: h' t' Get_Some_Cons)
    also have "\<dots> = Get h1 (Trie (Some a1)) T key"
      unfolding h' using w1 by (intro Get_frame) (simp_all add: valid_ptr_simps)
    also have "\<dots> = (if type_of v = T then Inr (Some v) else Inr None)"
      using Cons.prems(1) _ _ p1
      by (rule Cons.IH) (simp_all add: valid_ptr_simps path_length_None)
    finally show ?thesis .
  next
    case (Some a)
    with Cons.prems have a: "a < length h"
      by (simp add: valid_ptr_simps)
    from Cons.prems(1) a Cons.prems(3,4) [unfolded Some] obtain h1 a1 hs where
      p1: "Put h (Trie (find_child h a c)) key v = (h1, Trie (Some a1))"
      and w1: "wf_heap h1" "a1 < length h1"
      and b1: "path_length h (Trie (find_child h a c)) key < 2 ^ 31"
      and h': "h' = h1 @ [set_child (h ! a) c (Some a1)]" and t': "t' = Trie (Some (length h1))"
      by (rule Put_step_Some)
    have "Get h' t' T (c # key) = Get h' (Trie (Some a1)) T key"
      by (simp add: h' t' Get_Some_Cons children_set_child update_conv')
    also have "\<dots> = Get h1 (Trie (Some a1)) T key"
      unfolding h' using w1 by (intro Get_frame) (simp_all add: valid_ptr_simps)
    also have "\<dots> = (if type_of v = T then Inr (Some v) else Inr None)"
      using Cons.prems(1) wf_heap_find_child [OF Cons.prems(1) a] b1 p1 by (rule Cons.IH)
    finally show ?thesis .
  qed
qed

lemma Put_None_Get_other:
  "wf_heap h \<Longrightarrow> Put h (Trie None) key v = (h', t') \<Longrightarrow> k2 \<noteq> key \<Longrightarrow>
     Get h' t' T k2 = Inr None"
proof (induction key arbitrary: h' t' k2)
  case Nil
  then show ?case
    by (cases k2) (auto simp: Put_Nil Get_Some_Cons)
next
  case (Cons c key)
  from Cons.prems(1,2) obtain h1 a1 where
    p1: "Put h (Trie None) key v = (h1, Trie (Some a1))" and w1: "wf_heap h1" "a1 < length h1"
    and h': "h' = h1 @ [TrieNode [(c, Some a1)]]" and t': "t' = Trie (Some (length h1))"
    by (rule Put_step_None)
  show ?case
  proof (cases k2)
    case Nil
    then show ?thesis by (simp add: h' t' Get_Some_Nil)
  next
    case (Cons c' k2')
    show ?thesis
    proof (cases "c' = c")
      case False
      with Cons show ?thesis by (simp add: h' t' Get_Some_Cons)
    next
      case True
      with Cons Cons.prems(3) have ne: "k2' \<noteq> key" by simp
      have "Get h' t' T k2 = Get h' (Trie (Some a1)) T k2'"
        by (simp add: Cons True h' t' Get_Some_Cons)
      also have "\<dots> = Get h1 (Trie (Some a1)) T k2'"
        unfolding h' using w1 by (intro Get_frame) (simp_all add: valid_ptr_simps)
      also have "\<dots> = Inr None"
        using Cons.prems(1) p1 ne by (rule Cons.IH)
      finally show ?thesis .
    qed
  qed
qed


lemma Get_None_cases: "Get h (Trie None) T key = Inr None \<or> Get h (Trie None) T key = Inl NullDereference"
  by (cases key) (simp_all add: Get_None_Nil Get_None_Cons)

lemma Put_Get_other:
  "wf_heap h \<Longrightarrow> valid_ptr h p \<Longrightarrow> path_length h (Trie p) key < 2 ^ 31 \<Longrightarrow>
   Put h (Trie p) key v = (h', t') \<Longrightarrow> k2 \<noteq> key \<Longrightarrow>
     Get h' t' T k2 = Get h (Trie p) T k2 \<or>
     (Get h (Trie p) T k2 = Inl NullDereference \<and> Get h' t' T k2 = Inr None)"
proof (induction key arbitrary: p h' t' k2)
  case Nil
  then obtain c' k2' where k2: "k2 = c' # k2'"
    by (cases k2) auto
  show ?case
  proof (cases p)
    case None
    with Nil.prems(4) have "h' = h @ [TrieNodeWithValue [] v]" "t' = Trie (Some (length h))"
      by (simp_all add: Put_Nil)
    then show ?thesis
      by (simp add: None k2 Get_Some_Cons Get_None_Cons)
  next
    case (Some a)
    with Nil.prems have a: "a < length h"
      by (simp add: valid_ptr_simps)
    let ?n = "TrieNodeWithValue (children (h ! a)) v"
    from Nil.prems(4) Some have h': "h' = h @ [?n]" and t': "t' = Trie (Some (length h))"
      by (simp_all add: Put_Nil)
    show ?thesis
    proof (cases "map_of (children (h ! a)) c'")
      case None
      then show ?thesis
        by (simp add: k2 h' t' Some Get_Some_Cons)
    next
      case (Some nxt)
      with Nil.prems(1) a have "valid_ptr h nxt"
        by (rule wf_heap_child)
      with Nil.prems(1) have "Get (h @ [?n]) (Trie nxt) T k2' = Get h (Trie nxt) T k2'"
        by (rule Get_frame)
      with Some show ?thesis
        by (simp add: k2 h' t' \<open>p = Some a\<close> Get_Some_Cons)
    qed
  qed
next
  case (Cons c key)
  show ?case
  proof (cases p)
    case None
    from Cons.prems(1,4,5) have "Get h' t' T k2 = Inr None"
      unfolding None by (rule Put_None_Get_other)
    with Get_None_cases [of h T k2] None show ?thesis
      by auto
  next
    case (Some a)
    with Cons.prems have a: "a < length h"
      by (simp add: valid_ptr_simps)
    let ?q = "find_child h a c"
    from Cons.prems(1) a Cons.prems(3,4) [unfolded Some] obtain h1 a1 hs where
      p1: "Put h (Trie ?q) key v = (h1, Trie (Some a1))"
      and w1: "wf_heap h1" "a1 < length h1" and h1: "h1 = h @ hs"
      and b1: "path_length h (Trie ?q) key < 2 ^ 31"
      and h': "h' = h1 @ [set_child (h ! a) c (Some a1)]" and t': "t' = Trie (Some (length h1))"
      by (rule Put_step_Some)
    have ext: "h' = h @ (hs @ [set_child (h ! a) c (Some a1)])"
      by (simp add: h' h1)
    show ?thesis
    proof (cases k2)
      case Nil
      then show ?thesis
        by (cases "h ! a") (simp_all add: h' t' Some Get_Some_Nil)
    next
      case k2: (Cons c' k2')
      show ?thesis
      proof (cases "c' = c")
        case False
        show ?thesis
        proof (cases "map_of (children (h ! a)) c'")
          case None
          with False show ?thesis
            by (simp add: k2 h' t' Some Get_Some_Cons children_set_child update_conv')
        next
          case Some': (Some nxt)
          with Cons.prems(1) a have "valid_ptr h nxt"
            by (rule wf_heap_child)
          with Cons.prems(1) have "Get h' (Trie nxt) T k2' = Get h (Trie nxt) T k2'"
            unfolding ext by (rule Get_frame)
          with Some' False show ?thesis
            by (simp add: k2 h' t' Some Get_Some_Cons children_set_child update_conv')
        qed
      next
        case True
        with k2 Cons.prems(5) have ne: "k2' \<noteq> key" by simp
        have new: "Get h' t' T k2 = Get h1 (Trie (Some a1)) T k2'"
        proof -
          have "Get h' t' T k2 = Get h' (Trie (Some a1)) T k2'"
            by (simp add: k2 True h' t' Get_Some_Cons children_set_child update_conv')
          also have "\<dots> = Get h1 (Trie (Some a1)) T k2'"
            unfolding h' using w1 by (intro Get_frame) (simp_all add: valid_ptr_simps)
          finally show ?thesis .
        qed
        show ?thesis
        proof (cases "map_of (children (h ! a)) c")
          case None
          then have "?q = None" by simp
          with p1 have "Put h (Trie None) key v = (h1, Trie (Some a1))" by simp
          with Cons.prems(1) have "Get h1 (Trie (Some a1)) T k2' = Inr None"
            using ne by (rule Put_None_Get_other)
          with new None show ?thesis
            by (simp add: k2 True Some Get_Some_Cons)
        next
          case Some': (Some nxt)
          then have q: "?q = nxt" by simp
          have "valid_ptr h nxt"
            using Cons.prems(1) a Some' by (rule wf_heap_child)
          from Cons.IH [OF Cons.prems(1) this b1 [unfolded q] p1 [unfolded q] ne] new Some' show ?thesis
            by (simp add: k2 True Some Get_Some_Cons)
        qed
      qed
    qed
  qed
qed



lemma Put_wf_trie:
  assumes "wf_trie h t" and "path_length h t key < 2 ^ 31" and "Put h t key v = (h', t')"
  shows "wf_trie h' t'" and "\<exists>hs. h' = h @ hs"
proof -
  obtain p where t: "t = Trie p" by (cases t)
  with assms(1) have "wf_heap h" "valid_ptr h p"
    by (simp_all add: wf_trie_def)
  from Put_props [OF this assms(2,3) [unfolded t]]
  show "wf_trie h' t'" and "\<exists>hs. h' = h @ hs"
    by (auto simp: wf_trie_def valid_ptr_simps)
qed

text \<open>
  Isolation of \<open>Put\<close> for every lookup that does not run into a null reference in the
  old version (on a path that fits the counter of step 3), and persistence of the old
  version in the new store (for every key).
\<close>

lemma Put_isolation_unless_dereference:
  assumes "wf_trie h t" and "path_length h t key < 2 ^ 31" and "Put h t key v = (h', t')"
    and "k2 \<noteq> key" and "Get h t T k2 \<noteq> Inl NullDereference"
  shows "Get h' t' T k2 = Get h t T k2"
proof -
  obtain p where t: "t = Trie p" by (cases t)
  with assms(1) have "wf_heap h" "valid_ptr h p"
    by (simp_all add: wf_trie_def)
  from Put_Get_other [OF this assms(2,3) [unfolded t] assms(4), of T] assms(5) show ?thesis
    by (simp add: t)
qed

lemma Put_keeps_old_version:
  assumes "wf_trie h t" and "Put h t key v = (h', t')"
  shows "Get h' t T k2 = Get h t T k2"
proof -
  obtain p where t: "t = Trie p" by (cases t)
  with assms(1) have w: "wf_heap h" "valid_ptr h p"
    by (simp_all add: wf_trie_def)
  from Put_extends [OF assms(2)] obtain hs where "h' = h @ hs" ..
  with Get_frame [OF w] show ?thesis
    by (simp add: t)
qed

lemma Put_Get_type_mismatch:
  assumes "wf_trie h t" and "path_length h t key < 2 ^ 31" and "Put h t key v = (h', t')"
    and "type_of v \<noteq> T"
  shows "Get h' t' T key = Inr None"
proof -
  obtain p where t: "t = Trie p" by (cases t)
  with assms(1) have "wf_heap h" "valid_ptr h p"
    by (simp_all add: wf_trie_def)
  from Put_Get_same [OF this assms(2,3) [unfolded t], of T] assms(4) show ?thesis
    by simp
qed

subsection \<open>What \<open>Remove\<close> builds\<close>

lemma walk_Get_loop:
  "walk h key 0 p [] = (idx, cur, st) \<Longrightarrow>
     (Get_loop h p key = Inr (Some (Some a))) = (idx = length key \<and> cur = Some a)"
proof (induction key arbitrary: p idx cur st)
  case Nil
  then show ?case by (auto simp: walk_Nil)
next
  case (Cons c key)
  show ?case
  proof (cases p)
    case None
    with Cons.prems show ?thesis by (auto simp: walk_None)
  next
    case (Some b)
    obtain i cu s where w: "walk h key 0 (find_child h b c) [] = (i, cu, s)"
      by (cases "walk h key 0 (find_child h b c) []") auto
    with Cons.prems Some have eq: "idx = Suc i" "cur = cu" "st = b # s"
      by (simp_all add: walk_Cons)
    show ?thesis
    proof (cases "map_of (children (h ! b)) c")
      case None
      with w have "cu = None" by (simp add: walk_None)
      with None Some eq show ?thesis by simp
    next
      case Some': (Some nxt)
      with w have "walk h key 0 nxt [] = (i, cu, s)" by simp
      from Cons.IH [OF this] Some' Some eq show ?thesis by simp
    qed
  qed
qed

lemma Remove_absent:
  assumes "\<not> holds_value h t key"
  shows "Remove h t key = (h, t)"
proof -
  obtain idx cur st where w: "walk h key 0 (root t) [] = (idx, cur, st)"
    by (cases "walk h key 0 (root t) []") auto
  show ?thesis
  proof (cases "idx = length key")
    case False
    with w show ?thesis by (simp add: Remove_def)
  next
    case True
    show ?thesis
    proof (cases cur)
      case None
      with w True show ?thesis by (simp add: Remove_def)
    next
      case (Some a)
      with walk_Get_loop [OF w, of a] True have "Get_loop h (root t) key = Inr (Some (Some a))"
        by simp
      with assms have "\<not> is_value_node (h ! a)"
        by (simp add: holds_value_def)
      with w True Some show ?thesis by (simp add: Remove_def)
    qed
  qed
qed

lemma Get_loop_frame:
  "wf_heap h \<Longrightarrow> valid_ptr h p \<Longrightarrow> Get_loop (h @ hs) p key = Get_loop h p key"
proof (induction key arbitrary: p)
  case Nil
  then show ?case by simp
next
  case (Cons c key)
  show ?case
  proof (cases p)
    case None
    then show ?thesis by simp
  next
    case (Some a)
    with Cons.prems have a: "a < length h"
      by (simp add: valid_ptr_simps)
    show ?thesis
    proof (cases "map_of (children (h ! a)) c")
      case None
      with Some a show ?thesis by (simp add: nth_append)
    next
      case Some': (Some nxt)
      with Cons.prems(1) a have "valid_ptr h nxt"
        by (rule wf_heap_child)
      with Cons.IH Cons.prems(1) have "Get_loop (h @ hs) nxt key = Get_loop h nxt key"
        by simp
      with Some' Some a show ?thesis
        by (simp add: nth_append)
    qed
  qed
qed

lemma Get_loop_valid:
  "wf_heap h \<Longrightarrow> valid_ptr h p \<Longrightarrow> Get_loop h p key = Inr (Some q) \<Longrightarrow> valid_ptr h q"
proof (induction key arbitrary: p)
  case Nil
  then show ?case by simp
next
  case (Cons c key)
  from Cons.prems(3) obtain a nxt where p: "p = Some a"
    and m: "map_of (children (h ! a)) c = Some nxt" and g: "Get_loop h nxt key = Inr (Some q)"
    by (auto split: option.splits)
  from Cons.prems(2) p have "a < length h"
    by (simp add: valid_ptr_simps)
  with Cons.prems(1) have "valid_ptr h nxt"
    using m by (rule wf_heap_child)
  with Cons.prems(1) show ?case
    using g by (rule Cons.IH)
qed

lemma Get_loop_snoc:
  "Get_loop h p (xs @ [c]) =
     (case Get_loop h p xs of
        Inl e \<Rightarrow> Inl e
      | Inr None \<Rightarrow> Inr None
      | Inr (Some None) \<Rightarrow> Inl NullDereference
      | Inr (Some (Some b)) \<Rightarrow>
          (case map_of (children (h ! b)) c of None \<Rightarrow> Inr None | Some nxt \<Rightarrow> Inr (Some nxt)))"
  by (induction xs arbitrary: p) (auto split: option.splits sum.splits)

lemma copy_path_after_walk:
  assumes "wf_heap h" and "valid_ptr h p" and "walk h key 0 p [] = (length key, cur, st)"
    and "key \<noteq> []" and "length key < 2 ^ 31"
    and "wf_heap h1" and "h1 = h @ hs" and "valid_ptr h1 e"
    and "copy_path h1 st key (word_of_nat (length st) - 1) cur0 e = (h', r')"
  shows "\<exists>hs' r b. h' = h1 @ hs' \<and> wf_heap h' \<and> r' = Some r \<and> r < length h' \<and>
           Get_loop h' r' (butlast key) = Inr (Some (Some b)) \<and>
           length h1 \<le> b \<and> b < length h' \<and>
           map_of (children (h' ! b)) (last key) = Some e"
  using assms(2,3,4,5,9)
proof (induction key arbitrary: p st cur0 h' r')
  case Nil
  then show ?case by simp
next
  case (Cons c key)
  from Cons.prems(2) obtain a where p: "p = Some a"
    by (cases p) (auto simp: walk_None)
  with Cons.prems(1) have a: "a < length h"
    by (simp add: valid_ptr_simps)
  then have a1: "a < length h1"
    using assms(7) by simp
  let ?q = "find_child h a c"
  obtain i cu s where w: "walk h key 0 ?q [] = (i, cu, s)"
    by (cases "walk h key 0 ?q []") auto
  with Cons.prems(2) p have eq: "i = length key" "cu = cur" "st = a # s"
    by (simp_all add: walk_Cons)
  from walk_length [OF w] eq have ls: "length s = length key"
    by simp
  from Cons.prems(4) ls have bs: "length s < 2 ^ 31" and bk: "length key < 2 ^ 31"
    by simp_all
  obtain h2 r2 where c2: "copy_path h1 s key (word_of_nat (length s) - 1) e e = (h2, r2)"
    by (cases "copy_path h1 s key (word_of_nat (length s) - 1) e e") auto
  let ?n = "set_child (Clone (h2 ! a)) c r2"
  from Cons.prems(5) eq c2 have h': "h' = h2 @ [?n]" and r': "r' = Some (length h2)"
    by (simp_all add: copy_path_Cons [OF bs])
  show ?case
  proof (cases "key = []")
    case True
    with ls c2 have h2: "h2 = h1" and r2: "r2 = e"
      by (simp_all add: copy_path_neg)
    have "wf_node h1 (h1 ! a)"
      using assms(6) a1 by (rule wf_heap_nth)
    then have "wf_node h1 ?n"
      using assms(8) by (simp add: h2 r2 Clone_id wf_node_set_child)
    then have "wf_node h' ?n"
      unfolding h' h2 by (rule wf_node_append)
    then have wf': "wf_heap h'"
      unfolding h' h2 using assms(6) by (intro wf_heap_snoc)
    have "map_of (children (h' ! length h1)) (last (c # key)) = Some e"
      by (simp add: True h' h2 r2 children_set_child update_conv')
    moreover have "Get_loop h' r' (butlast (c # key)) = Inr (Some (Some (length h1)))"
      by (simp add: True r' h2)
    moreover have "h' = h1 @ [?n]" "length h1 < length h'"
      by (simp_all add: h' h2)
    ultimately show ?thesis
      using wf' r' h2 by blast
  next
    case False
    have vq: "valid_ptr h ?q"
      using assms(1) a by (rule wf_heap_find_child)
    from Cons.IH [OF vq w [unfolded eq(1,2)] False bk c2]
    obtain hs2 r b where ih: "h2 = h1 @ hs2" "wf_heap h2" "r2 = Some r" "r < length h2"
      "Get_loop h2 r2 (butlast key) = Inr (Some (Some b))" "length h1 \<le> b" "b < length h2"
      "map_of (children (h2 ! b)) (last key) = Some e"
      by auto
    have a2: "a < length h2"
      using a1 ih(1) by simp
    have "wf_node h2 (h2 ! a)"
      using ih(2) a2 by (rule wf_heap_nth)
    then have "wf_node h2 ?n"
      using ih(3,4) by (simp add: Clone_id wf_node_set_child valid_ptr_simps)
    then have "wf_node h' ?n"
      unfolding h' by (rule wf_node_append)
    then have wf': "wf_heap h'"
      unfolding h' using ih(2) by (intro wf_heap_snoc)
    have "Get_loop h' r' (butlast (c # key)) = Get_loop h' r2 (butlast key)"
      by (simp add: False r' h' children_set_child update_conv')
    also have "\<dots> = Get_loop h2 r2 (butlast key)"
      unfolding h' using ih(2,3,4) by (intro Get_loop_frame) (simp_all add: valid_ptr_simps)
    finally have g: "Get_loop h' r' (butlast (c # key)) = Inr (Some (Some b))"
      using ih(5) by simp
    have "h' ! b = h2 ! b"
      using ih(7) by (simp add: h' nth_append)
    with ih(8) False have m: "map_of (children (h' ! b)) (last (c # key)) = Some e"
      by simp
    have "h' = h1 @ (hs2 @ [?n])" "b < length h'" "length h2 < length h'"
      using ih(1,7) by (simp_all add: h')
    with wf' r' g m ih(6) show ?thesis
      by blast
  qed
qed


lemma Get_Some_reaches_value_node:
  assumes "Get h t T key = Inr (Some v)"
  shows "\<exists>a. Get_loop h (root t) key = Inr (Some (Some a)) \<and> is_value_node (h ! a)"
  using assms
  by (auto simp: Get_def split: sum.splits option.splits TrieNode.splits if_splits
           elim!: dynamic_cast.elims)

lemma Remove_Put_Get_nonempty_key:
  assumes "wf_trie h t" and "key \<noteq> []" and "length key < 2 ^ 31"
    and "Put h t key v = (h1, t1)" and "Remove h1 t1 key = (h2, t2)"
  shows "Get h2 t2 T key = Inr None"
proof -
  have pl: "path_length h t key < 2 ^ 31"
    using path_length_le [of h t key] assms(3) by simp
  have w1: "wf_trie h1 t1"
    using assms(1) pl assms(4) by (rule Put_wf_trie(1))
  then have wf1: "wf_heap h1" and v1: "valid_ptr h1 (root t1)"
    by (simp_all add: wf_trie_def)
  from Put_Get_same [of h "root t" key v h1 t1 "type_of v"] assms(1,4) pl
  have "Get h1 t1 (type_of v) key = Inr (Some v)"
    by (simp add: wf_trie_def)
  then obtain a where g: "Get_loop h1 (root t1) key = Inr (Some (Some a))"
    and va: "is_value_node (h1 ! a)"
    using Get_Some_reaches_value_node by blast
  obtain idx cur st where w: "walk h1 key 0 (root t1) [] = (idx, cur, st)"
    by (cases "walk h1 key 0 (root t1) []") auto
  with walk_Get_loop [OF w, of a] g have idx: "idx = length key" and cur: "cur = Some a"
    by simp_all
  from Get_loop_valid [OF wf1 v1 g] have a: "a < length h1"
    by (simp add: valid_ptr_simps)
  let ?cs = "children (h1 ! a)"
  define hA where "hA = (if ?cs = [] then h1 else h1 @ [TrieNode ?cs])"
  define e where "e = (if ?cs = [] then None else Some (length h1))"
  obtain r2 where c2: "copy_path hA st key (word_of_nat (length st) - 1) (Some a) e = (h2, r2)"
    and t2: "t2 = Trie r2"
    using assms(5) w idx cur va
    by (auto simp: Remove_def hA_def e_def make_shared_def split: prod.splits if_splits)
  have "wf_node h1 (TrieNode ?cs)"
    using wf_heap_nth [OF wf1 a] by (simp add: wf_node_def)
  then have "wf_node (h1 @ [TrieNode ?cs]) (TrieNode ?cs)"
    by (rule wf_node_append)
  with wf1 have "wf_heap (h1 @ [TrieNode ?cs])"
    by (rule wf_heap_snoc)
  with wf1 have wfA: "wf_heap hA"
    by (simp add: hA_def)
  have ext: "hA = h1 @ (if ?cs = [] then [] else [TrieNode ?cs])"
    by (simp add: hA_def)
  have ve: "valid_ptr hA e"
    by (simp add: hA_def e_def valid_ptr_simps)
  from copy_path_after_walk [OF wf1 v1 w [unfolded idx] assms(2,3) wfA ext ve c2]
  obtain hs' b where h2: "h2 = hA @ hs'"
    and gb: "Get_loop h2 r2 (butlast key) = Inr (Some (Some b))"
    and m: "map_of (children (h2 ! b)) (last key) = Some e"
    by blast
  have "Get_loop h2 r2 key = Get_loop h2 r2 (butlast key @ [last key])"
    using assms(2) by simp
  also have "\<dots> = Inr (Some e)"
    by (simp add: Get_loop_snoc gb m)
  finally have "Get_loop h2 r2 key = Inr (Some e)" .
  moreover have "dynamic_cast T h2 e = None"
    by (simp add: e_def h2 hA_def nth_append)
  ultimately show ?thesis
    by (simp add: Get_def t2)
qed

text \<open>
  With the empty key the loop of step 3 never runs, so \<open>Remove\<close> always returns the
  root it was given.
\<close>

lemma Remove_empty_key_same_root: "snd (Remove h t []) = t"
  by (cases t) (auto simp: Remove_def walk_Nil make_shared_def copy_path_neg split: option.splits)

text \<open>
  The scenario of the specification: \<open>t1 = Put(t0, "a", 1)\<close>, \<open>t2 = Put(t1, "ab", 2)\<close>,
  \<open>t3 = Remove(t2, "a")\<close>, all in one store.
\<close>

lemma scenario_a_ab:
  "Put [] (Trie None) ''a'' (UInt32 1) =
     ([TrieNodeWithValue [] (UInt32 1), TrieNode [(CHR ''a'', Some 0)]], Trie (Some 1))"
  "Put [TrieNodeWithValue [] (UInt32 1), TrieNode [(CHR ''a'', Some 0)]] (Trie (Some 1))
       ''ab'' (UInt32 2) =
     ([TrieNodeWithValue [] (UInt32 1), TrieNode [(CHR ''a'', Some 0)],
       TrieNodeWithValue [] (UInt32 2),
       TrieNodeWithValue [(CHR ''b'', Some 2)] (UInt32 1),
       TrieNode [(CHR ''a'', Some 3)]], Trie (Some 4))"
  "Remove [TrieNodeWithValue [] (UInt32 1), TrieNode [(CHR ''a'', Some 0)],
           TrieNodeWithValue [] (UInt32 2),
           TrieNodeWithValue [(CHR ''b'', Some 2)] (UInt32 1),
           TrieNode [(CHR ''a'', Some 3)]] (Trie (Some 4)) ''a'' =
     ([TrieNodeWithValue [] (UInt32 1), TrieNode [(CHR ''a'', Some 0)],
       TrieNodeWithValue [] (UInt32 2),
       TrieNodeWithValue [(CHR ''b'', Some 2)] (UInt32 1),
       TrieNode [(CHR ''a'', Some 3)], TrieNode [(CHR ''b'', Some 2)],
       TrieNode [(CHR ''a'', Some 5)]], Trie (Some 6))"
  "Get [TrieNodeWithValue [] (UInt32 1), TrieNode [(CHR ''a'', Some 0)],
        TrieNodeWithValue [] (UInt32 2),
        TrieNodeWithValue [(CHR ''b'', Some 2)] (UInt32 1),
        TrieNode [(CHR ''a'', Some 3)], TrieNode [(CHR ''b'', Some 2)],
        TrieNode [(CHR ''a'', Some 5)]] (Trie (Some 6)) T_uint32 ''a'' = Inr None"
  "Get [TrieNodeWithValue [] (UInt32 1), TrieNode [(CHR ''a'', Some 0)],
        TrieNodeWithValue [] (UInt32 2),
        TrieNodeWithValue [(CHR ''b'', Some 2)] (UInt32 1),
        TrieNode [(CHR ''a'', Some 3)], TrieNode [(CHR ''b'', Some 2)],
        TrieNode [(CHR ''a'', Some 5)]] (Trie (Some 6)) T_uint32 ''ab'' = Inr (Some (UInt32 2))"
  "Get [TrieNodeWithValue [] (UInt32 1), TrieNode [(CHR ''a'', Some 0)],
        TrieNodeWithValue [] (UInt32 2),
        TrieNodeWithValue [(CHR ''b'', Some 2)] (UInt32 1),
        TrieNode [(CHR ''a'', Some 3)], TrieNode [(CHR ''b'', Some 2)],
        TrieNode [(CHR ''a'', Some 5)]] (Trie (Some 1)) T_uint32 ''a'' = Inr (Some (UInt32 1))"
  "Get [TrieNodeWithValue [] (UInt32 1), TrieNode [(CHR ''a'', Some 0)],
        TrieNodeWithValue [] (UInt32 2),
        TrieNodeWithValue [(CHR ''b'', Some 2)] (UInt32 1),
        TrieNode [(CHR ''a'', Some 3)], TrieNode [(CHR ''b'', Some 2)],
        TrieNode [(CHR ''a'', Some 5)]] (Trie (Some 4)) T_uint32 ''a'' = Inr (Some (UInt32 1))"
  by code_simp+

subsection \<open>The path of \<open>2^31 + 1\<close> nodes\<close>

text \<open>
  With a stack of \<open>2^31 + 1\<close> entries the counter of step 3 starts at \<open>-2^31\<close> and
  the loop is skipped.
\<close>

lemma long_n_pos: "0 < long_n"
  by (simp add: long_n_def)

lemma copy_path_long: "copy_path h st key (word_of_nat long_n - 1) cur child = (h, cur)"
  by (subst copy_path.simps) (simp add: long_n_def)

lemma build_chain_done: "build_chain h key n n child = (h, child)"
  by (cases n) simp_all

lemma length_long_path: "length (long_path v) = Suc long_n"
  by (simp add: long_path_def)

lemma long_path_0: "long_path v ! 0 = TrieNodeWithValue [] v"
  by (simp add: long_path_def)

lemma long_path_Suc: "j < long_n \<Longrightarrow> long_path v ! Suc j = TrieNode [(CHR ''a'', Some j)]"
  by (simp add: long_path_def)

lemma wf_long_path: "wf_trie (long_path v) (Trie (Some long_n))"
  by (auto simp: wf_trie_def wf_heap_def wf_node_def list_all_iff valid_ptr_def long_path_def)

lemma walk_long_path:
  "j \<le> long_n \<Longrightarrow>
     \<exists>st. walk (long_path v) (replicate j (CHR ''a'')) 0 (Some j) [] = (j, Some 0, st) \<and> length st = j"
proof (induction j)
  case 0
  then show ?case by (simp add: walk_Nil)
next
  case (Suc j)
  then obtain st where "walk (long_path v) (replicate j (CHR ''a'')) 0 (Some j) [] = (j, Some 0, st)"
    and "length st = j"
    by auto
  with Suc.prems show ?case
    by (simp add: walk_Cons long_path_Suc)
qed

lemma Put_long_path:
  "Put (long_path v0) (Trie (Some long_n)) long_key v =
     (long_path v0 @ [TrieNodeWithValue [] v], Trie (Some (Suc long_n)))"
proof -
  from walk_long_path [of long_n v0] obtain st
    where w: "walk (long_path v0) long_key 0 (Some long_n) [] = (long_n, Some 0, st)"
      and l: "length st = long_n"
    by (auto simp: long_key_def)
  have k: "length long_key = long_n"
    by (simp add: long_key_def)
  show ?thesis
    by (simp add: Put_def w l k make_shared_def long_path_0 build_chain_done copy_path_long
          length_long_path del: build_chain.simps)
qed

lemma Get_bare_leaf:
  "Get (h @ [TrieNodeWithValue [] v]) (Trie (Some (length h))) T long_key = Inr None"
proof -
  from long_n_pos have m: "long_n = Suc (long_n - 1)"
    by simp
  have lk: "long_key = CHR ''a'' # replicate (long_n - 1) (CHR ''a'')"
    unfolding long_key_def by (subst m) simp
  show ?thesis
    by (subst lk) (simp add: Get_Some_Cons)
qed

lemma Put_empty_replicate:
  "Put [] (Trie None) (replicate n (CHR ''a'')) v =
     (TrieNodeWithValue [] v # map (\<lambda>j. TrieNode [(CHR ''a'', Some j)]) [0..<n], Trie (Some n))"
  by (induction n) (simp_all add: Put_Nil Put_None_Cons)

lemma Put_empty_long_key: "Put [] (Trie None) long_key v = (long_path v, Trie (Some long_n))"
  by (simp add: long_key_def long_path_def Put_empty_replicate)

lemma Remove_long_path:
  "Remove (long_path v) (Trie (Some long_n)) long_key = (long_path v, Trie (Some 0))"
proof -
  from walk_long_path [of long_n v] obtain st
    where w: "walk (long_path v) long_key 0 (Some long_n) [] = (long_n, Some 0, st)"
      and l: "length st = long_n"
    by (auto simp: long_key_def)
  have k: "length long_key = long_n"
    by (simp add: long_key_def)
  show ?thesis
    by (simp add: Remove_def w l k long_path_0 copy_path_long)
qed

lemma Get_loop_long_path:
  "Get_loop (long_path v) (Some long_n) long_key = Inr (Some (Some 0))"
proof -
  from walk_long_path [of long_n v] obtain st
    where w: "walk (long_path v) long_key 0 (Some long_n) [] = (long_n, Some 0, st)"
    by (auto simp: long_key_def)
  from walk_Get_loop [OF w, of 0] show ?thesis
    by (simp add: long_key_def)
qed

lemma butlast_long_key_dead_end:
  "Get_loop (long_path v) (Some 0) (butlast long_key) = Inr None"
proof -
  have "2 \<le> long_n"
    by (simp add: long_n_def)
  then have m: "long_n = Suc (Suc (long_n - 2))"
    by simp
  have "replicate long_n (CHR ''a'') =
          (CHR ''a'' # replicate (long_n - 2) (CHR ''a'')) @ [CHR ''a'']"
    by (subst m) (simp add: replicate_append_same)
  then have "butlast long_key = CHR ''a'' # replicate (long_n - 2) (CHR ''a'')"
    unfolding long_key_def by (simp only: butlast_snoc)
  then show ?thesis
    by (simp add: long_path_0)
qed

section \<open>The claims\<close>

text \<open>
  C1, for paths that fit the counter of step 3. Round-trip: in every well-formed version, for every key (the empty key
  included) along which the version has fewer than \<open>2^31\<close> nodes, which covers every
  key shorter than \<open>2^31\<close> bytes, and for every value \<open>v\<close>, \<open>Get\<close> at the type of
  \<open>v\<close> on the result of \<open>Put(t, k, v)\<close> returns \<open>v\<close>.
\<close>

theorem Put_Get_round_trip:
  assumes "wf_trie h t" and "path_length h t key < 2 ^ 31" and "Put h t key v = (h', t')"
  shows "Get h' t' (type_of v) key = Inr (Some v)"
proof -
  obtain p where t: "t = Trie p" by (cases t)
  with assms(1) have "wf_heap h" "valid_ptr h p"
    by (simp_all add: wf_trie_def)
  from Put_Get_same [OF this assms(2,3) [unfolded t], of "type_of v"] show ?thesis
    by simp
qed

theorem Put_Get_round_trip_witness:
  "wf_trie [TrieNodeWithValue [] (UInt32 1), TrieNode [(CHR ''a'', Some 0)]] (Trie (Some 1)) \<and>
   path_length [TrieNodeWithValue [] (UInt32 1), TrieNode [(CHR ''a'', Some 0)]] (Trie (Some 1))
       ''ab'' < 2 ^ 31 \<and>
   Put [TrieNodeWithValue [] (UInt32 1), TrieNode [(CHR ''a'', Some 0)]] (Trie (Some 1))
       ''ab'' (UInt32 2) =
     ([TrieNodeWithValue [] (UInt32 1), TrieNode [(CHR ''a'', Some 0)],
       TrieNodeWithValue [] (UInt32 2),
       TrieNodeWithValue [(CHR ''b'', Some 2)] (UInt32 1),
       TrieNode [(CHR ''a'', Some 3)]], Trie (Some 4)) \<and>
   Get [TrieNodeWithValue [] (UInt32 1), TrieNode [(CHR ''a'', Some 0)],
        TrieNodeWithValue [] (UInt32 2),
        TrieNodeWithValue [(CHR ''b'', Some 2)] (UInt32 1),
        TrieNode [(CHR ''a'', Some 3)]] (Trie (Some 4)) T_uint32 ''ab'' = Inr (Some (UInt32 2))"
proof -
  let ?h = "[TrieNodeWithValue [] (UInt32 1), TrieNode [(CHR ''a'', Some 0)]]"
  have w: "wf_trie ?h (Trie (Some 1))"
    by code_simp
  have b: "path_length ?h (Trie (Some 1)) ''ab'' < 2 ^ 31"
    using path_length_le [of ?h "Trie (Some 1)" "''ab''"] by simp
  have p: "Put ?h (Trie (Some 1)) ''ab'' (UInt32 2) =
     ([TrieNodeWithValue [] (UInt32 1), TrieNode [(CHR ''a'', Some 0)],
       TrieNodeWithValue [] (UInt32 2),
       TrieNodeWithValue [(CHR ''b'', Some 2)] (UInt32 1),
       TrieNode [(CHR ''a'', Some 3)]], Trie (Some 4))"
    by code_simp
  from Put_Get_round_trip [OF w b p] w b p show ?thesis
    by simp
qed

text \<open>
  The claim as stated, for every key, fails on a path of \<open>2^31 + 1\<close> nodes: in the
  well-formed version \<open>long_path\<close>, which holds \<open>long_key\<close>, the counter of step 3 is
  negative, \<open>Put\<close> returns the bare new value node as the root, and \<open>Get\<close> of the key
  on it returns not found.
\<close>

theorem Put_Get_round_trip_counterexample:
  "wf_trie (long_path (UInt32 0)) (Trie (Some long_n)) \<and>
   Put (long_path (UInt32 0)) (Trie (Some long_n)) long_key (UInt32 7) =
     (long_path (UInt32 0) @ [TrieNodeWithValue [] (UInt32 7)], Trie (Some (Suc long_n))) \<and>
   Get (long_path (UInt32 0) @ [TrieNodeWithValue [] (UInt32 7)]) (Trie (Some (Suc long_n)))
     (type_of (UInt32 7)) long_key = Inr None"
  using Get_bare_leaf [of "long_path (UInt32 0)" "UInt32 7" "type_of (UInt32 7)"]
  by (simp add: wf_long_path Put_long_path length_long_path)

text \<open>
  C2. Delete correctness fails for the empty key: \<open>Remove\<close> of the empty key returns
  the walk's \<open>cur_node\<close>, which is still the old root, so the value stays. On the empty
  trie, \<open>Put("", 5)\<close>, then \<open>Remove("")\<close>, then \<open>Get<uint32_t>("")\<close> returns 5.
\<close>

theorem Remove_empty_key_keeps_value:
  "Put [] (Trie None) [] (UInt32 5) = ([TrieNodeWithValue [] (UInt32 5)], Trie (Some 0)) \<and>
   Remove [TrieNodeWithValue [] (UInt32 5)] (Trie (Some 0)) [] =
     ([TrieNodeWithValue [] (UInt32 5)], Trie (Some 0)) \<and>
   Get [TrieNodeWithValue [] (UInt32 5)] (Trie (Some 0)) T_uint32 [] = Inr (Some (UInt32 5))"
  by code_simp

text \<open>
  C3. Pruning stops at the end node: on the trie holding only \<open>"ab"\<close>, \<open>Remove("ab")\<close>
  returns a version whose root (address 4) still has the edge \<open>a\<close> to a branch node
  (address 3) that has no value and whose only entry is \<open>b\<close>, mapped to null.
\<close>

theorem Remove_leaves_valueless_branch:
  "Put [] (Trie None) ''ab'' (UInt32 5) =
     ([TrieNodeWithValue [] (UInt32 5), TrieNode [(CHR ''b'', Some 0)],
       TrieNode [(CHR ''a'', Some 1)]], Trie (Some 2)) \<and>
   Remove [TrieNodeWithValue [] (UInt32 5), TrieNode [(CHR ''b'', Some 0)],
           TrieNode [(CHR ''a'', Some 1)]] (Trie (Some 2)) ''ab'' =
     ([TrieNodeWithValue [] (UInt32 5), TrieNode [(CHR ''b'', Some 0)],
       TrieNode [(CHR ''a'', Some 1)], TrieNode [(CHR ''b'', None)],
       TrieNode [(CHR ''a'', Some 3)]], Trie (Some 4))"
  by code_simp

text \<open>
  C4. \<open>Get\<close> does not test the current node for null: on the empty trie (null root)
  with any non-empty key the first loop round dereferences the null root.
\<close>

theorem Get_null_root_dereferences:
  "Get h (Trie None) T (c # key) = Inl NullDereference"
  by (simp add: Get_def)

text \<open>
  C5. Isolation of \<open>Put\<close> fails where the lookup in the old version dereferences null:
  on the empty trie \<open>Get<uint32_t>("b")\<close> dereferences the null root, and after
  \<open>Put("a", 1)\<close> the same lookup returns not found.
\<close>

theorem Put_isolation_breaks_on_null_root:
  "Get [] (Trie None) T_uint32 ''b'' = Inl NullDereference \<and>
   Put [] (Trie None) ''a'' (UInt32 1) =
     ([TrieNodeWithValue [] (UInt32 1), TrieNode [(CHR ''a'', Some 0)]], Trie (Some 1)) \<and>
   Get [TrieNodeWithValue [] (UInt32 1), TrieNode [(CHR ''a'', Some 0)]] (Trie (Some 1))
       T_uint32 ''b'' = Inr None"
  by code_simp

text \<open>
  C6, for keys that fit the counter of step 3. Overwrite: in every well-formed version, for every key shorter than
  \<open>2^31\<close> bytes, after \<open>Put(Put(t, k, v1), k, v2)\<close> the key reports \<open>v2\<close>, and the
  intermediate version, queried in the final store, still reports \<open>v1\<close>.
\<close>

theorem Put_overwrite:
  assumes "wf_trie h t" and "length key < 2 ^ 31"
    and "Put h t key v1 = (h1, t1)" and "Put h1 t1 key v2 = (h2, t2)"
  shows "Get h2 t2 (type_of v2) key = Inr (Some v2) \<and>
         Get h2 t1 (type_of v1) key = Inr (Some v1)"
proof -
  have b0: "path_length h t key < 2 ^ 31" and b1: "path_length h1 t1 key < 2 ^ 31"
    using path_length_le [of h t key] path_length_le [of h1 t1 key] assms(2) by simp_all
  have w1: "wf_trie h1 t1"
    using assms(1) b0 assms(3) by (rule Put_wf_trie(1))
  obtain p where t: "t1 = Trie p" by (cases t1)
  with w1 have w: "wf_heap h1" "valid_ptr h1 p"
    by (simp_all add: wf_trie_def)
  have new: "Get h2 t2 (type_of v2) key = Inr (Some v2)"
    using Put_Get_same [OF w b1 [unfolded t] assms(4) [unfolded t], of "type_of v2"] by simp
  have "Get h1 t1 (type_of v1) key = Inr (Some v1)"
  proof -
    obtain p0 where t0: "t = Trie p0" by (cases t)
    with assms(1) have "wf_heap h" "valid_ptr h p0"
      by (simp_all add: wf_trie_def)
    from Put_Get_same [OF this b0 [unfolded t0] assms(3) [unfolded t0], of "type_of v1"]
    show ?thesis
      by simp
  qed
  moreover from Put_extends [OF assms(4)] obtain hs where "h2 = h1 @ hs" ..
  ultimately have "Get h2 t1 (type_of v1) key = Inr (Some v1)"
    using Get_frame [OF w] by (simp add: t)
  with new show ?thesis ..
qed

theorem Put_overwrite_witness:
  "wf_trie [] (Trie None) \<and>
   length ''a'' < 2 ^ 31 \<and>
   Put [] (Trie None) ''a'' (UInt32 1) =
     ([TrieNodeWithValue [] (UInt32 1), TrieNode [(CHR ''a'', Some 0)]], Trie (Some 1)) \<and>
   Put [TrieNodeWithValue [] (UInt32 1), TrieNode [(CHR ''a'', Some 0)]] (Trie (Some 1))
       ''a'' (String ''x'') =
     ([TrieNodeWithValue [] (UInt32 1), TrieNode [(CHR ''a'', Some 0)],
       TrieNodeWithValue [] (String ''x''), TrieNode [(CHR ''a'', Some 2)]], Trie (Some 3)) \<and>
   Get [TrieNodeWithValue [] (UInt32 1), TrieNode [(CHR ''a'', Some 0)],
        TrieNodeWithValue [] (String ''x''), TrieNode [(CHR ''a'', Some 2)]] (Trie (Some 3))
       T_string ''a'' = Inr (Some (String ''x'')) \<and>
   Get [TrieNodeWithValue [] (UInt32 1), TrieNode [(CHR ''a'', Some 0)],
        TrieNodeWithValue [] (String ''x''), TrieNode [(CHR ''a'', Some 2)]] (Trie (Some 1))
       T_uint32 ''a'' = Inr (Some (UInt32 1))"
proof -
  let ?h1 = "[TrieNodeWithValue [] (UInt32 1), TrieNode [(CHR ''a'', Some 0)]]"
  have w: "wf_trie [] (Trie None)"
    by code_simp
  have b: "length ''a'' < (2::nat) ^ 31"
    by simp
  have p1: "Put [] (Trie None) ''a'' (UInt32 1) = (?h1, Trie (Some 1))"
    by code_simp
  have p2: "Put ?h1 (Trie (Some 1)) ''a'' (String ''x'') =
     ([TrieNodeWithValue [] (UInt32 1), TrieNode [(CHR ''a'', Some 0)],
       TrieNodeWithValue [] (String ''x''), TrieNode [(CHR ''a'', Some 2)]], Trie (Some 3))"
    by code_simp
  from Put_overwrite [OF w b p1 p2] w p1 p2 show ?thesis
    by simp
qed

text \<open>
  The claim as stated, for every key, fails for the key of \<open>2^31 + 1\<close> bytes on the
  empty trie: the first \<open>Put\<close> builds the version \<open>long_path\<close>; the second \<open>Put\<close>
  walks all its nodes, its counter of step 3 is negative, it returns the bare new value
  node as the root, and \<open>Get\<close> of the key on it returns not found instead of the
  second value.
\<close>

theorem Put_overwrite_counterexample:
  "wf_trie [] (Trie None) \<and>
   Put [] (Trie None) long_key (UInt32 1) = (long_path (UInt32 1), Trie (Some long_n)) \<and>
   Put (long_path (UInt32 1)) (Trie (Some long_n)) long_key (UInt32 2) =
     (long_path (UInt32 1) @ [TrieNodeWithValue [] (UInt32 2)], Trie (Some (Suc long_n))) \<and>
   Get (long_path (UInt32 1) @ [TrieNodeWithValue [] (UInt32 2)]) (Trie (Some (Suc long_n)))
     (type_of (UInt32 2)) long_key = Inr None"
  using Get_bare_leaf [of "long_path (UInt32 1)" "UInt32 2" "type_of (UInt32 2)"]
  by (simp add: Put_empty_long_key Put_long_path length_long_path wf_trie_def wf_heap_def
        valid_ptr_def)

text \<open>
  C7. Type mismatch behaves as absence: when the loop of \<open>Get\<close> ends on a node that
  stores a value whose type is not the requested \<open>T\<close>, \<open>Get<T>\<close> returns not found.
\<close>

theorem Get_type_mismatch:
  assumes "Get_loop h (root t) key = Inr (Some (Some a))"
    and "h ! a = TrieNodeWithValue cs v" and "type_of v \<noteq> T"
  shows "Get h t T key = Inr None"
  using assms by (simp add: Get_def)

theorem Get_type_mismatch_witness:
  "Get_loop [TrieNodeWithValue [] (UInt32 5), TrieNode [(CHR ''k'', Some 0)]] (root (Trie (Some 1)))
     ''k'' = Inr (Some (Some 0)) \<and>
   [TrieNodeWithValue [] (UInt32 5), TrieNode [(CHR ''k'', Some 0)]] ! 0 =
     TrieNodeWithValue [] (UInt32 5) \<and>
   type_of (UInt32 5) \<noteq> T_string \<and>
   Get [TrieNodeWithValue [] (UInt32 5), TrieNode [(CHR ''k'', Some 0)]] (Trie (Some 1))
     T_string ''k'' = Inr None"
proof -
  let ?h = "[TrieNodeWithValue [] (UInt32 5), TrieNode [(CHR ''k'', Some 0)]]"
  have l: "Get_loop ?h (root (Trie (Some 1))) ''k'' = Inr (Some (Some 0))"
    by simp
  have n: "?h ! 0 = TrieNodeWithValue [] (UInt32 5)"
    by simp
  have m: "type_of (UInt32 5) \<noteq> T_string"
    by simp
  from Get_type_mismatch [OF l n m] l n m show ?thesis
    by simp
qed

text \<open>
  C8. No-op delete: when the key is not present as a value (the walk does not consume the
  whole key, or ends on null or on a node without a value), \<open>Remove\<close> returns the
  store and the version it was given: the same root reference, hence the same answer to
  every lookup.
\<close>

theorem Remove_absent_key_unchanged:
  assumes "\<not> holds_value h t key"
  shows "Remove h t key = (h, t)"
  using assms by (rule Remove_absent)

theorem Remove_absent_key_unchanged_witness:
  "\<not> holds_value [TrieNodeWithValue [] (UInt32 1), TrieNode [(CHR ''a'', Some 0)]]
       (Trie (Some 1)) ''b'' \<and>
   Remove [TrieNodeWithValue [] (UInt32 1), TrieNode [(CHR ''a'', Some 0)]] (Trie (Some 1)) ''b'' =
     ([TrieNodeWithValue [] (UInt32 1), TrieNode [(CHR ''a'', Some 0)]], Trie (Some 1))"
proof -
  have a: "\<not> holds_value [TrieNodeWithValue [] (UInt32 1), TrieNode [(CHR ''a'', Some 0)]]
       (Trie (Some 1)) ''b''"
    by (simp add: holds_value_def)
  from Remove_absent_key_unchanged [OF a] a show ?thesis
    by simp
qed

text \<open>
  C9. \<open>Get\<close> on the empty trie (null root) with the empty key returns not found: the
  loop body never runs and the cast of the null root fails.
\<close>

theorem Get_empty_trie_empty_key: "Get h (Trie None) T [] = Inr None"
  by (simp add: Get_def)

text \<open>
  C10, for keys that fit the counter of step 3. When \<open>Remove\<close> deletes a present non-empty key shorter than \<open>2^31\<close>
  bytes whose value node has no children, the parent's clone in the new version (a node
  allocated by this call, reached from the new root along the key without its last byte)
  still has an entry for the last byte, mapped to null.
\<close>

theorem Remove_keeps_null_edge:
  assumes "wf_trie h t" and "key \<noteq> []" and "length key < 2 ^ 31"
    and "Get_loop h (root t) key = Inr (Some (Some a))"
    and "is_value_node (h ! a)" and "children (h ! a) = []"
    and "Remove h t key = (h', t')"
  shows "\<exists>b. Get_loop h' (root t') (butlast key) = Inr (Some (Some b)) \<and>
           length h \<le> b \<and> b < length h' \<and>
           map_of (children (h' ! b)) (last key) = Some None"
proof -
  from assms(1) have wf: "wf_heap h" and v: "valid_ptr h (root t)"
    by (simp_all add: wf_trie_def)
  obtain idx cur st where w: "walk h key 0 (root t) [] = (idx, cur, st)"
    by (cases "walk h key 0 (root t) []") auto
  with walk_Get_loop [OF w, of a] assms(4) have idx: "idx = length key" and cur: "cur = Some a"
    by simp_all
  obtain r' where c: "copy_path h st key (word_of_nat (length st) - 1) (Some a) None = (h', r')"
    and t': "t' = Trie r'"
    using assms(5,6,7) w idx cur
    by (auto simp: Remove_def split: prod.splits)
  from copy_path_after_walk [OF wf v w [unfolded idx] assms(2,3) wf _ _ c, of "[]"]
  show ?thesis
    by (auto simp: t' valid_ptr_simps)
qed

theorem Remove_keeps_null_edge_witness:
  "wf_trie [TrieNodeWithValue [] (UInt32 5), TrieNode [(CHR ''b'', Some 0)],
            TrieNode [(CHR ''a'', Some 1)]] (Trie (Some 2)) \<and>
   ''ab'' \<noteq> [] \<and>
   length ''ab'' < 2 ^ 31 \<and>
   Get_loop [TrieNodeWithValue [] (UInt32 5), TrieNode [(CHR ''b'', Some 0)],
             TrieNode [(CHR ''a'', Some 1)]] (root (Trie (Some 2))) ''ab'' = Inr (Some (Some 0)) \<and>
   is_value_node ([TrieNodeWithValue [] (UInt32 5), TrieNode [(CHR ''b'', Some 0)],
             TrieNode [(CHR ''a'', Some 1)]] ! 0) \<and>
   children ([TrieNodeWithValue [] (UInt32 5), TrieNode [(CHR ''b'', Some 0)],
             TrieNode [(CHR ''a'', Some 1)]] ! 0) = [] \<and>
   Remove [TrieNodeWithValue [] (UInt32 5), TrieNode [(CHR ''b'', Some 0)],
           TrieNode [(CHR ''a'', Some 1)]] (Trie (Some 2)) ''ab'' =
     ([TrieNodeWithValue [] (UInt32 5), TrieNode [(CHR ''b'', Some 0)],
       TrieNode [(CHR ''a'', Some 1)], TrieNode [(CHR ''b'', None)],
       TrieNode [(CHR ''a'', Some 3)]], Trie (Some 4)) \<and>
   (\<exists>b. Get_loop [TrieNodeWithValue [] (UInt32 5), TrieNode [(CHR ''b'', Some 0)],
       TrieNode [(CHR ''a'', Some 1)], TrieNode [(CHR ''b'', None)],
       TrieNode [(CHR ''a'', Some 3)]] (root (Trie (Some 4))) (butlast ''ab'') = Inr (Some (Some b)) \<and>
       length [TrieNodeWithValue [] (UInt32 5), TrieNode [(CHR ''b'', Some 0)],
            TrieNode [(CHR ''a'', Some 1)]] \<le> b \<and>
       b < length [TrieNodeWithValue [] (UInt32 5), TrieNode [(CHR ''b'', Some 0)],
       TrieNode [(CHR ''a'', Some 1)], TrieNode [(CHR ''b'', None)],
       TrieNode [(CHR ''a'', Some 3)]] \<and>
       map_of (children ([TrieNodeWithValue [] (UInt32 5), TrieNode [(CHR ''b'', Some 0)],
       TrieNode [(CHR ''a'', Some 1)], TrieNode [(CHR ''b'', None)],
       TrieNode [(CHR ''a'', Some 3)]] ! b)) (last ''ab'') = Some None)"
proof -
  let ?h = "[TrieNodeWithValue [] (UInt32 5), TrieNode [(CHR ''b'', Some 0)],
            TrieNode [(CHR ''a'', Some 1)]]"
  let ?h' = "[TrieNodeWithValue [] (UInt32 5), TrieNode [(CHR ''b'', Some 0)],
       TrieNode [(CHR ''a'', Some 1)], TrieNode [(CHR ''b'', None)],
       TrieNode [(CHR ''a'', Some 3)]]"
  have w: "wf_trie ?h (Trie (Some 2))"
    by code_simp
  have k: "''ab'' \<noteq> []"
    by simp
  have l: "length ''ab'' < (2::nat) ^ 31"
    by simp
  have g: "Get_loop ?h (root (Trie (Some 2))) ''ab'' = Inr (Some (Some 0))"
    by simp
  have i: "is_value_node (?h ! 0)"
    by simp
  have c: "children (?h ! 0) = []"
    by simp
  have r: "Remove ?h (Trie (Some 2)) ''ab'' = (?h', Trie (Some 4))"
    by code_simp
  from Remove_keeps_null_edge [OF w k l g i c r] w k l g i c r show ?thesis
    by (intro conjI)
qed

text \<open>
  The claim as stated, for every present non-empty key, fails on the path of
  \<open>2^31 + 1\<close> nodes: the key is present in \<open>long_path\<close> and its value node (address 0)
  has no children, yet the counter of step 3 is negative, no node is cloned, and
  \<open>Remove\<close> returns the old store with the old value node as the root, from which the
  key without its last byte leads nowhere.
\<close>

theorem Remove_keeps_null_edge_counterexample:
  "wf_trie (long_path (UInt32 0)) (Trie (Some long_n)) \<and>
   long_key \<noteq> [] \<and>
   Get_loop (long_path (UInt32 0)) (root (Trie (Some long_n))) long_key = Inr (Some (Some 0)) \<and>
   is_value_node (long_path (UInt32 0) ! 0) \<and>
   children (long_path (UInt32 0) ! 0) = [] \<and>
   Remove (long_path (UInt32 0)) (Trie (Some long_n)) long_key =
     (long_path (UInt32 0), Trie (Some 0)) \<and>
   Get_loop (long_path (UInt32 0)) (root (Trie (Some 0))) (butlast long_key) = Inr None"
proof -
  have "long_key \<noteq> []"
    using long_n_pos by (simp add: long_key_def)
  then show ?thesis
    by (simp add: wf_long_path Get_loop_long_path long_path_0 Remove_long_path
          butlast_long_key_dead_end)
qed

end
